theory Spec2Isabelle
  imports Main "HOL-Library.Sublist"
begin

section \<open>Python values used by the two modules\<close>

text \<open>
  Strings are lists of characters. The four characters that cannot be written inside a
  string literal are named here: carriage return, line feed, the single quote and the
  double quote.
\<close>

abbreviation CR :: char where "CR \<equiv> CHR 0x0D"
abbreviation LF :: char where "LF \<equiv> CHR 0x0A"
abbreviation SQ :: char where "SQ \<equiv> CHR 0x27"
abbreviation DQ :: char where "DQ \<equiv> CHR 0x22"

abbreviation crlf :: string where "crlf \<equiv> [CR, LF]"

text \<open>\<^verbatim>\<open>sep.join(xs)\<close>: the elements of \<open>xs\<close> with \<open>sep\<close> between neighbours.\<close>

fun join :: "string \<Rightarrow> string list \<Rightarrow> string" where
  "join sep [] = []"
| "join sep [x] = x"
| "join sep (x # y # ys) = x @ sep @ join sep (y # ys)"

text \<open>
  A Python \<^verbatim>\<open>dict\<close> keeps its keys in insertion order, and the mailer script depends on
  that order, so a dictionary is an association list: \<open>dict_set\<close> is \<^verbatim>\<open>d[k] = v\<close>
  (an existing key keeps its position, a new key goes to the end) and \<open>dict_get\<close> is
  \<^verbatim>\<open>d.get(k, default)\<close>. \<^verbatim>\<open>d.items()\<close> is the list itself, \<^verbatim>\<open>d.keys()\<close> is
  \<open>map fst\<close> and \<^verbatim>\<open>len(d)\<close> is \<open>length\<close>.
\<close>

fun dict_set :: "'k \<Rightarrow> 'v \<Rightarrow> ('k \<times> 'v) list \<Rightarrow> ('k \<times> 'v) list" where
  "dict_set k v [] = [(k, v)]"
| "dict_set k v ((k', v') # d) = (if k' = k then (k, v) # d else (k', v') # dict_set k v d)"

fun dict_get :: "('k \<times> 'v) list \<Rightarrow> 'k \<Rightarrow> 'v \<Rightarrow> 'v" where
  "dict_get [] k dflt = dflt"
| "dict_get ((k', v') # d) k dflt = (if k' = k then v' else dict_get d k dflt)"

section \<open>tools/send\_subscription\_emails.py: the digest renderer\<close>

type_synonym digest_entry = "(string \<times> string) list"
type_synonym user_digest = "(string \<times> digest_entry) list"

text \<open>What is handed to \<^verbatim>\<open>ZeeguuMailer(subject, body, to_email)\<close>.\<close>

record mail =
  mail_subject :: string
  mail_body :: string
  mail_to :: string

text \<open>Line 23, the list comprehension: one anchor per \<open>(title, url)\<close> pair.\<close>

fun article_line :: "string \<times> string \<Rightarrow> string" where
  "article_line (t, url) = ''- <a href='' @ [DQ] @ url @ [DQ] @ ''>'' @ t @ ''</a>''"

text \<open>Line 23, the text added to the body for one keyword.\<close>

definition keyword_block :: "string \<Rightarrow> digest_entry \<Rightarrow> string" where
  "keyword_block keyword titles =
     join crlf (['' '', ''Search: '' @ [SQ] @ keyword @ [SQ] @ '': ''] @ map article_line titles)
       @ [LF]"

text \<open>Lines 22-23: the loop \<^verbatim>\<open>for keyword, titles in new_content_dict.items(): body += ...\<close>.\<close>

fun append_blocks :: "string \<Rightarrow> user_digest \<Rightarrow> string" where
  "append_blocks body [] = body"
| "append_blocks body ((keyword, titles) # rest) =
     append_blocks (body @ keyword_block keyword titles) rest"

text \<open>
  Lines 14-34 of \<^verbatim>\<open>send_mail_new_articles_search\<close>: body and subject are built and the
  mailer object is constructed. Line 35, the call of \<^verbatim>\<open>emailer.send()\<close>, follows below,
  where the transport is declared.
\<close>

definition compose_mail :: "string \<Rightarrow> user_digest \<Rightarrow> mail" where
  "compose_mail to_email new_content_dict =
     (let body0 = join crlf
            [''Hi there,'',
             '' '',
             ''There are new articles related to your subscribed ''
               @ (if length new_content_dict > 1 then ''searches'' else ''search'')
               @ ''. You can find your subscriptions here: https://www.zeeguu.org/articles/mySearches'',
             '' ''];
          body1 = append_blocks body0 new_content_dict;
          body2 = body1 @ join crlf ['' '', '' '', ''Cheers,'', ''The Zeeguu Team''];
          subject = ''New articles for ''
            @ ([SQ] @ join ([SQ] @ '','' @ [SQ]) (map fst new_content_dict) @ [SQ])
      in \<lparr>mail_subject = subject, mail_body = body2, mail_to = to_email\<rparr>)"

section \<open>tools/send\_subscription\_emails.py: the run\<close>

text \<open>
  Exceptions are values. The script raises none itself; everything it calls may. The
  three named exceptions are the ones the built-ins of the endpoint raise, \<open>Raised\<close>
  carries the name of an exception that comes out of a collaborator.
\<close>

datatype exn = TypeError | ValueError | AttributeError | Raised string

text \<open>
  The rows the script reads. A timestamp is a number of microseconds, the resolution of
  \<^verbatim>\<open>datetime\<close>; every article carries one that compares with the clock's reading, as
  line 58 needs. \<open>search_keywords\<close> of a subscription is
  \<^verbatim>\<open>subscription.search.keywords\<close>.
\<close>

record user =
  id' :: nat
  email :: string

record subscription =
  user_id :: nat
  search_keywords :: string
  receive_email :: bool

record article =
  title :: string
  url :: string
  published_time :: int

text \<open>The arguments of one call of \<^verbatim>\<open>article_search_for_user\<close> (lines 46-54).\<close>

record search_call =
  call_user :: user
  call_count :: nat
  call_keywords :: string
  call_page :: nat
  use_published_priority :: bool
  use_readability_priority :: bool
  score_threshold :: int

text \<open>
  What the script is run against: the rows of the subscription table in query order, the
  user lookup, the recommender, the mail transport (\<open>None\<close>: the call returned) and the
  clock. Each collaborator either returns or raises.
\<close>

record env =
  search_subscriptions :: "subscription list"
  find_by_id :: "nat \<Rightarrow> exn + user"
  article_search_for_user :: "search_call \<Rightarrow> exn + article list"
  mailer_send :: "mail \<Rightarrow> exn option"
  now :: int

type_synonym digests = "(string \<times> user_digest) list"

definition timedelta_days :: "int \<Rightarrow> int" where
  "timedelta_days n = n * 86400000000"

text \<open>Lines 55-59, the list comprehension.\<close>

definition new_articles_found :: "int \<Rightarrow> article list \<Rightarrow> article list" where
  "new_articles_found previous_day_datetime articles =
     filter (\<lambda>article. published_time article > previous_day_datetime) articles"

text \<open>Lines 46-54: the arguments the recommender is called with for a subscription.\<close>

definition search_call_for :: "user \<Rightarrow> subscription \<Rightarrow> search_call" where
  "search_call_for usr subscription =
     \<lparr>call_user = usr, call_count = 3, call_keywords = search_keywords subscription,
      call_page = 0, use_published_priority = True, use_readability_priority = True,
      score_threshold = 0\<rparr>"

text \<open>
  Lines 44-63, the body of the loop over the subscriptions. The state is the dictionary
  \<^verbatim>\<open>user_subscriptions\<close> together with the recommender calls made so far; the second
  component of the result is the exception that ended the body, if one did.
\<close>

definition process_subscription ::
  "env \<Rightarrow> int \<Rightarrow> subscription \<Rightarrow> digests \<times> search_call list
     \<Rightarrow> (digests \<times> search_call list) \<times> exn option" where
  "process_subscription e previous_day_datetime subscription st =
     (case st of (user_subscriptions, calls) \<Rightarrow>
      (case find_by_id e (user_id subscription) of
         Inl x \<Rightarrow> ((user_subscriptions, calls), Some x)
       | Inr usr \<Rightarrow>
          (let c = search_call_for usr subscription
           in case article_search_for_user e c of
                Inl x \<Rightarrow> ((user_subscriptions, calls @ [c]), Some x)
              | Inr articles \<Rightarrow>
                 (let found = new_articles_found previous_day_datetime articles
                  in if found \<noteq> [] then
                       (let updated_dict = dict_get user_subscriptions (email usr) [];
                            updated_dict' = dict_set (search_keywords subscription)
                               (map (\<lambda>article. (title article, url article)) found)
                               updated_dict
                        in ((dict_set (email usr) updated_dict' user_subscriptions,
                             calls @ [c]), None))
                     else ((user_subscriptions, calls @ [c]), None)))))"

text \<open>Line 43: the loop. An exception in the body ends it.\<close>

fun aggregate ::
  "env \<Rightarrow> int \<Rightarrow> subscription list \<Rightarrow> digests \<times> search_call list
     \<Rightarrow> (digests \<times> search_call list) \<times> exn option" where
  "aggregate e prev [] st = (st, None)"
| "aggregate e prev (subscription # rest) st =
     (case process_subscription e prev subscription st of
        (st', Some x) \<Rightarrow> (st', Some x)
      | (st', None) \<Rightarrow> aggregate e prev rest st')"

text \<open>
  Lines 13-35, \<^verbatim>\<open>send_mail_new_articles_search\<close>: the mail is built and handed to the
  transport. The result is the mail and the exception of \<^verbatim>\<open>emailer.send()\<close>, if it
  raised one.
\<close>

definition send_mail_new_articles_search ::
  "env \<Rightarrow> string \<Rightarrow> user_digest \<Rightarrow> mail \<times> exn option" where
  "send_mail_new_articles_search e to_email new_content_dict =
     (let emailer = compose_mail to_email new_content_dict
      in (emailer, mailer_send e emailer))"

text \<open>
  Lines 64-65: one call of \<^verbatim>\<open>send_mail_new_articles_search\<close> per item of the
  dictionary. The mails handed to the transport are collected in order; a transport that
  raises ends the loop.
\<close>

fun dispatch :: "env \<Rightarrow> digests \<Rightarrow> mail list \<Rightarrow> mail list \<times> exn option" where
  "dispatch e [] out = (out, None)"
| "dispatch e ((user_email, new_content_dict) # rest) out =
     (case send_mail_new_articles_search e user_email new_content_dict of
        (m, Some x) \<Rightarrow> (out @ [m], Some x)
      | (m, None) \<Rightarrow> dispatch e rest (out @ [m]))"

text \<open>
  What one run did: the dictionary as the first loop left it, the recommender calls, the
  mails handed to the transport, and the exception that ended the run, if one did.
\<close>

record run =
  run_digests :: digests
  run_queries :: "search_call list"
  run_dispatched :: "mail list"
  run_raised :: "exn option"

text \<open>Lines 40-41: the cutoff, one day before the clock's reading.\<close>

definition previous_day_datetime :: "env \<Rightarrow> int" where
  "previous_day_datetime e = now e - timedelta_days 1"

text \<open>Lines 38-65. Line 39 reads only the rows with \<^verbatim>\<open>receive_email=True\<close>.\<close>

definition send_subscription_emails :: "env \<Rightarrow> run" where
  "send_subscription_emails e =
     (let all_subscriptions = filter receive_email (search_subscriptions e)
      in case aggregate e (previous_day_datetime e) all_subscriptions ([], []) of
           ((us, calls), Some x) \<Rightarrow>
             \<lparr>run_digests = us, run_queries = calls, run_dispatched = [], run_raised = Some x\<rparr>
         | ((us, calls), None) \<Rightarrow>
             (case dispatch e us [] of (out, r) \<Rightarrow>
                \<lparr>run_digests = us, run_queries = calls, run_dispatched = out, run_raised = r\<rparr>))"

section \<open>zeeguu/api/endpoints/exercises.py: report\_exercise\_outcome\<close>

















section \<open>Notions used to state the properties\<close>

subsection \<open>The parts of a rendered mail\<close>

text \<open>
  The first three lines of every body, each closed by CR LF, with the word \<open>w\<close> in the
  place of \<^verbatim>\<open>search\<close> or \<^verbatim>\<open>searches\<close> (lines 16-18); and the closing lines 26-29.
\<close>

definition notice :: "string \<Rightarrow> string" where
  "notice w =
     ''Hi there,'' @ crlf @ '' '' @ crlf
       @ ''There are new articles related to your subscribed '' @ w
       @ ''. You can find your subscriptions here: https://www.zeeguu.org/articles/mySearches''
       @ crlf"

definition signature :: string where
  "signature = '' '' @ crlf @ '' '' @ crlf @ ''Cheers,'' @ crlf @ ''The Zeeguu Team''"

text \<open>
  The template as the specification words it: the header line of a keyword, the line of
  an article, and the subject listing the quoted keywords separated by commas.
\<close>

definition template_header :: "string \<Rightarrow> string" where
  "template_header keyword = ''Search: '' @ [SQ] @ keyword @ [SQ] @ '':''"

definition template_article :: "string \<Rightarrow> string \<Rightarrow> string" where
  "template_article URL TITLE = ''- <a href='' @ [DQ] @ URL @ [DQ] @ ''>'' @ TITLE @ ''</a>''"

definition template_subject :: "string list \<Rightarrow> string" where
  "template_subject kws = ''New articles for '' @ join '','' (map (\<lambda>kw. [SQ] @ kw @ [SQ]) kws)"

subsection \<open>What a subscription adds to the dictionary\<close>

text \<open>
  \<open>found_for\<close>: the owner of a subscription and its candidates after the recency filter,
  when the lookup and the recommender both return. \<open>entry_of\<close>: the e-mail address, the
  keyword and the \<open>(title, url)\<close> pairs the loop body stores for the subscription, when
  the filtered list is not empty.
\<close>

definition found_for :: "env \<Rightarrow> int \<Rightarrow> subscription \<Rightarrow> (user \<times> article list) option" where
  "found_for e prev s =
     (case find_by_id e (user_id s) of
        Inl x \<Rightarrow> None
      | Inr usr \<Rightarrow>
         (case article_search_for_user e (search_call_for usr s) of
            Inl x \<Rightarrow> None
          | Inr articles \<Rightarrow> Some (usr, new_articles_found prev articles)))"

definition pairs_of :: "article list \<Rightarrow> digest_entry" where
  "pairs_of found = map (\<lambda>article. (title article, url article)) found"

definition entry_of ::
  "env \<Rightarrow> int \<Rightarrow> subscription \<Rightarrow> (string \<times> string \<times> digest_entry) option" where
  "entry_of e prev s =
     (case found_for e prev s of
        None \<Rightarrow> None
      | Some (usr, found) \<Rightarrow>
          if found \<noteq> [] then Some (email usr, search_keywords s, pairs_of found) else None)"

text \<open>Lines 61-63 as one step on the dictionary, and the loop body's effect on it.\<close>

definition put_entry :: "string \<Rightarrow> string \<Rightarrow> digest_entry \<Rightarrow> digests \<Rightarrow> digests" where
  "put_entry em kw ps us = dict_set em (dict_set kw ps (dict_get us em [])) us"

definition contribute :: "env \<Rightarrow> int \<Rightarrow> digests \<Rightarrow> subscription \<Rightarrow> digests" where
  "contribute e prev us s =
     (case found_for e prev s of
        None \<Rightarrow> us
      | Some (usr, found) \<Rightarrow>
          if found \<noteq> [] then put_entry (email usr) (search_keywords s) (pairs_of found) us
          else us)"

text \<open>
  The keyword entries that the subscriptions \<open>ss\<close> store under the address \<open>em\<close>, in
  processing order.
\<close>

definition entries_for ::
  "env \<Rightarrow> int \<Rightarrow> string \<Rightarrow> subscription list \<Rightarrow> (string \<times> digest_entry) list" where
  "entries_for e prev em ss =
     concat (map (\<lambda>s. case entry_of e prev s of
                          None \<Rightarrow> []
                        | Some (em', kw, ps) \<Rightarrow> if em' = em then [(kw, ps)] else []) ss)"

definition lookup :: "digests \<Rightarrow> string \<Rightarrow> string \<Rightarrow> digest_entry option" where
  "lookup us em kw = (case map_of us em of None \<Rightarrow> None | Some d \<Rightarrow> map_of d kw)"

definition wf_digests :: "digests \<Rightarrow> bool" where
  "wf_digests us \<longleftrightarrow>
     distinct (map fst us) \<and> (\<forall>(em, d)\<in>set us. distinct (map fst d) \<and> d \<noteq> [])"

section \<open>Example inputs\<close>

text \<open>
  A table of four subscriptions of two users, one of them without e-mail delivery. The
  clock reads \<open>1000000000000\<close>, so the cutoff is \<open>913600000000\<close>: one cat article is
  one microsecond younger than the cutoff, the other lies exactly on it.
\<close>

definition ann :: user where
  "ann = \<lparr>id' = 1, email = ''ann@example.org''\<rparr>"

definition bob :: user where
  "bob = \<lparr>id' = 2, email = ''bob@example.org''\<rparr>"

definition cat_new :: article where
  "cat_new = \<lparr>title = ''Cats at home'', url = ''https://news.example/cats-home'',
              published_time = 913600000001\<rparr>"

definition cat_old :: article where
  "cat_old = \<lparr>title = ''Cats of old'', url = ''https://news.example/cats-old'',
              published_time = 913600000000\<rparr>"

definition dog_new :: article where
  "dog_new = \<lparr>title = ''Dogs in town'', url = ''https://news.example/dogs-town'',
              published_time = 999999999999\<rparr>"

definition bird_old :: article where
  "bird_old = \<lparr>title = ''Birds last week'', url = ''https://news.example/birds'',
               published_time = 400000000000\<rparr>"

definition example_env :: env where
  "example_env =
     \<lparr>search_subscriptions =
        [\<lparr>user_id = 1, search_keywords = ''cats'', receive_email = True\<rparr>,
         \<lparr>user_id = 2, search_keywords = ''cats'', receive_email = False\<rparr>,
         \<lparr>user_id = 1, search_keywords = ''dogs'', receive_email = True\<rparr>,
         \<lparr>user_id = 2, search_keywords = ''birds'', receive_email = True\<rparr>],
      find_by_id = (\<lambda>i. if i = 1 then Inr ann else if i = 2 then Inr bob
                         else Inl (Raised ''NoResultFound'')),
      article_search_for_user =
        (\<lambda>c. if call_keywords c = ''cats'' then Inr [cat_new, cat_old]
              else if call_keywords c = ''dogs'' then Inr [dog_new]
              else Inr [bird_old]),
      mailer_send = (\<lambda>m. None),
      now = 1000000000000\<rparr>"

definition example_digest :: user_digest where
  "example_digest =
     [(''cats'', [(''Cats at home'', ''https://news.example/cats-home'')]),
      (''dogs'', [(''Dogs in town'', ''https://news.example/dogs-town'')])]"

definition single_digest :: user_digest where
  "single_digest = [(''cats'', [(''Cats at home'', ''https://news.example/cats-home'')])]"









text \<open>
  Two user records with different ids and one address, each with a subscription for the
  same keyword; the recommender answers the two users differently.
\<close>

definition carl :: user where
  "carl = \<lparr>id' = 3, email = ''family@example.org''\<rparr>"

definition cora :: user where
  "cora = \<lparr>id' = 4, email = ''family@example.org''\<rparr>"

definition carl_cats :: subscription where
  "carl_cats = \<lparr>user_id = 3, search_keywords = ''cats'', receive_email = True\<rparr>"

definition cora_cats :: subscription where
  "cora_cats = \<lparr>user_id = 4, search_keywords = ''cats'', receive_email = True\<rparr>"

definition shared_env :: env where
  "shared_env =
     \<lparr>search_subscriptions = [carl_cats, cora_cats],
      find_by_id = (\<lambda>i. if i = 3 then Inr carl else if i = 4 then Inr cora
                         else Inl (Raised ''NoResultFound'')),
      article_search_for_user =
        (\<lambda>c. if id' (call_user c) = 3 then Inr [cat_new] else Inr [dog_new]),
      mailer_send = (\<lambda>m. None),
      now = 1000000000000\<rparr>"

section \<open>Lemmas\<close>

subsection \<open>Rendering\<close>

lemma join_Cons: "join sep (x # xs) = x @ concat (map (\<lambda>y. sep @ y) xs)"
  by (induction xs arbitrary: x) simp_all

lemma append_blocks_concat:
  "append_blocks b d = b @ concat (map (\<lambda>(keyword, titles). keyword_block keyword titles) d)"
  by (induction b d rule: append_blocks.induct) simp_all


lemma body_shape:
  "mail_body (compose_mail to d) =
     notice (if length d > 1 then ''searches'' else ''search'') @ '' ''
       @ concat (map (\<lambda>(keyword, titles). keyword_block keyword titles) d)
       @ signature"
  by (simp add: compose_mail_def Let_def append_blocks_concat notice_def signature_def)

subsection \<open>The aggregation loop\<close>

lemma process_digests:
  "fst (fst (process_subscription e prev s (us, qs))) = contribute e prev us s"
  by (simp add: process_subscription_def contribute_def found_for_def put_entry_def pairs_of_def
      Let_def split: sum.splits)

lemma process_raised:
  "snd (process_subscription e prev s (us, qs)) = None \<longleftrightarrow> found_for e prev s \<noteq> None"
  by (simp add: process_subscription_def found_for_def Let_def split: sum.splits)

lemma aggregate_digests:
  "fst (fst (aggregate e prev ss (us, qs)))
     = foldl (contribute e prev) us (takeWhile (\<lambda>s. found_for e prev s \<noteq> None) ss)"
proof (induction ss arbitrary: us qs)
  case Nil
  then show ?case by simp
next
  case (Cons s ss)
  obtain us' qs' r where p: "process_subscription e prev s (us, qs) = ((us', qs'), r)"
    by (metis surj_pair)
  have d: "us' = contribute e prev us s" using process_digests [of e prev s us qs] p by simp
  have f: "r = None \<longleftrightarrow> found_for e prev s \<noteq> None"
    using process_raised [of e prev s us qs] p by simp
  show ?case
  proof (cases r)
    case None
    then show ?thesis using p d f Cons.IH [of us' qs'] by simp
  next
    case (Some x)
    then have "found_for e prev s = None" using f by (cases "found_for e prev s") auto
    then show ?thesis using p Some d by (simp add: contribute_def)
  qed
qed

lemma aggregate_raised:
  "snd (aggregate e prev ss (us, qs)) = None \<longleftrightarrow> (\<forall>s\<in>set ss. found_for e prev s \<noteq> None)"
proof (induction ss arbitrary: us qs)
  case Nil
  then show ?case by simp
next
  case (Cons s ss)
  obtain us' qs' r where p: "process_subscription e prev s (us, qs) = ((us', qs'), r)"
    by (metis surj_pair)
  have f: "r = None \<longleftrightarrow> found_for e prev s \<noteq> None"
    using process_raised [of e prev s us qs] p by simp
  show ?case
  proof (cases r)
    case None
    then show ?thesis using p f Cons.IH [of us' qs'] by simp
  next
    case (Some x)
    then show ?thesis using p f by simp
  qed
qed


lemma contribute_entry:
  "contribute e prev us s =
     (case entry_of e prev s of None \<Rightarrow> us | Some (em, kw, ps) \<Rightarrow> put_entry em kw ps us)"
  by (simp add: contribute_def entry_of_def split: option.splits)

lemma map_of_dict_set: "map_of (dict_set k v d) = (map_of d)(k \<mapsto> v)"
  by (induction d) (auto simp: fun_eq_iff)

lemma dict_get_map_of: "dict_get d k dflt = (case map_of d k of None \<Rightarrow> dflt | Some v \<Rightarrow> v)"
  by (induction d) auto

lemma keys_dict_set:
  "map fst (dict_set k v d) = (if k \<in> set (map fst d) then map fst d else map fst d @ [k])"
  by (induction d) (force split: if_splits)+

lemma distinct_dict_set: "distinct (map fst d) \<Longrightarrow> distinct (map fst (dict_set k v d))"
  by (simp add: keys_dict_set)

lemma dict_set_nonempty: "dict_set k v d \<noteq> []"
  by (cases d) (auto split: if_splits)

lemma dict_get_dict_set:
  "dict_get (dict_set k v d) k' dflt = (if k' = k then v else dict_get d k' dflt)"
  by (simp add: dict_get_map_of map_of_dict_set)

lemma wf_in_iff: "wf_digests us \<Longrightarrow> (em, d) \<in> set us \<longleftrightarrow> map_of us em = Some d"
  by (simp add: wf_digests_def)

lemma wf_put_entry:
  assumes "wf_digests us"
  shows "wf_digests (put_entry em kw ps us)"
proof -
  let ?old = "dict_get us em []"
  let ?new = "dict_set kw ps ?old"
  have old: "distinct (map fst ?old)"
  proof (cases "map_of us em")
    case None
    then show ?thesis by (simp add: dict_get_map_of)
  next
    case (Some d)
    then have "(em, d) \<in> set us" by (rule map_of_SomeD)
    then show ?thesis using assms Some by (auto simp: wf_digests_def dict_get_map_of)
  qed
  have new: "distinct (map fst ?new) \<and> ?new \<noteq> []"
    using old by (simp add: distinct_dict_set dict_set_nonempty)
  have dist: "distinct (map fst (dict_set em ?new us))"
    using assms by (simp add: wf_digests_def distinct_dict_set)
  have "distinct (map fst d) \<and> d \<noteq> []" if "(em', d) \<in> set (dict_set em ?new us)" for em' d
  proof -
    from that dist have "map_of (dict_set em ?new us) em' = Some d" by simp
    then have "((map_of us)(em \<mapsto> ?new)) em' = Some d" by (simp add: map_of_dict_set)
    then have "d = ?new \<or> map_of us em' = Some d" by (auto split: if_splits)
    then show ?thesis
    proof
      assume "d = ?new" then show ?thesis using new by simp
    next
      assume "map_of us em' = Some d"
      then have "(em', d) \<in> set us" by (rule map_of_SomeD)
      then show ?thesis using assms by (auto simp: wf_digests_def)
    qed
  qed
  then show ?thesis using dist by (auto simp: wf_digests_def put_entry_def)
qed

lemma wf_contribute: "wf_digests us \<Longrightarrow> wf_digests (contribute e prev us s)"
  by (auto simp: contribute_entry wf_put_entry split: option.splits)

lemma wf_foldl: "wf_digests us \<Longrightarrow> wf_digests (foldl (contribute e prev) us ss)"
  by (induction ss arbitrary: us) (simp_all add: wf_contribute)

lemma wf_empty: "wf_digests []"
  by (simp add: wf_digests_def)

lemma lookup_put_entry:
  "lookup (put_entry em kw ps us) em' kw' =
     (if em' = em \<and> kw' = kw then Some ps else lookup us em' kw')"
  by (auto simp: lookup_def put_entry_def map_of_dict_set dict_get_map_of split: option.splits)

lemma lookup_contribute:
  "lookup (contribute e prev us s) em kw =
     (case entry_of e prev s of
        None \<Rightarrow> lookup us em kw
      | Some (em', kw', ps) \<Rightarrow> if em = em' \<and> kw = kw' then Some ps else lookup us em kw)"
  by (auto simp: contribute_entry lookup_put_entry split: option.splits)

lemma lookup_origin:
  "lookup (foldl (contribute e prev) [] ss) em kw = Some ps \<Longrightarrow>
     \<exists>pre s post. ss = pre @ s # post \<and> entry_of e prev s = Some (em, kw, ps)
        \<and> (\<forall>s'\<in>set post. \<forall>ps'. entry_of e prev s' \<noteq> Some (em, kw, ps'))"
proof (induction ss arbitrary: ps rule: rev_induct)
  case Nil
  then show ?case by (simp add: lookup_def)
next
  case (snoc s ss)
  let ?us = "foldl (contribute e prev) [] ss"
  have l: "lookup (contribute e prev ?us s) em kw = Some ps" using snoc.prems by simp
  show ?case
  proof (cases "\<exists>ps'. entry_of e prev s = Some (em, kw, ps')")
    case True
    then obtain ps' where en: "entry_of e prev s = Some (em, kw, ps')" by blast
    then have "ps' = ps" using l by (simp add: lookup_contribute)
    then have "ss @ [s] = ss @ s # [] \<and> entry_of e prev s = Some (em, kw, ps)
        \<and> (\<forall>s'\<in>set []. \<forall>ps'. entry_of e prev s' \<noteq> Some (em, kw, ps'))"
      using en by simp
    then show ?thesis by blast
  next
    case False
    then have "lookup ?us em kw = Some ps"
      using l by (auto simp: lookup_contribute split: option.splits if_splits)
    from snoc.IH [OF this] obtain pre s0 post where
      p: "ss = pre @ s0 # post" "entry_of e prev s0 = Some (em, kw, ps)"
         "\<forall>s'\<in>set post. \<forall>ps'. entry_of e prev s' \<noteq> Some (em, kw, ps')"
      by blast
    have "ss @ [s] = pre @ s0 # (post @ [s]) \<and> entry_of e prev s0 = Some (em, kw, ps)
        \<and> (\<forall>s'\<in>set (post @ [s]). \<forall>ps'. entry_of e prev s' \<noteq> Some (em, kw, ps'))"
      using p False by auto
    then show ?thesis by blast
  qed
qed

lemma lookup_present:
  "s \<in> set ss \<Longrightarrow> entry_of e prev s = Some (em, kw, ps) \<Longrightarrow>
     \<exists>ps'. lookup (foldl (contribute e prev) [] ss) em kw = Some ps'"
proof (induction ss rule: rev_induct)
  case Nil
  then show ?case by simp
next
  case (snoc x ss)
  show ?case
  proof (cases "\<exists>ps'. entry_of e prev x = Some (em, kw, ps')")
    case True
    then show ?thesis by (auto simp: lookup_contribute)
  next
    case False
    then have "s \<in> set ss" using snoc.prems by auto
    from snoc.IH [OF this snoc.prems(2)] obtain ps' where
      "lookup (foldl (contribute e prev) [] ss) em kw = Some ps'" by blast
    then show ?thesis using False
      by (auto simp: lookup_contribute split: option.splits)
  qed
qed

lemma digest_of_put_entry:
  "dict_get (put_entry em kw ps us) em' [] =
     (if em' = em then dict_set kw ps (dict_get us em []) else dict_get us em' [])"
  by (simp add: put_entry_def dict_get_dict_set)

lemma digest_of_foldl:
  "dict_get (foldl (contribute e prev) [] ss) em [] =
     foldl (\<lambda>d (kw, ps). dict_set kw ps d) [] (entries_for e prev em ss)"
proof (induction ss rule: rev_induct)
  case Nil
  then show ?case by (simp add: entries_for_def)
next
  case (snoc s ss)
  then show ?case
    by (auto simp: entries_for_def contribute_entry digest_of_put_entry split: option.splits)
qed


subsection \<open>The dispatch loop\<close>

lemma dispatch_take:
  "\<exists>k\<le>length us. fst (dispatch e us out) = out @ map (\<lambda>(em, d). compose_mail em d) (take k us)"
proof (induction us arbitrary: out)
  case Nil
  then show ?case by simp
next
  case (Cons p us)
  obtain em d where p: "p = (em, d)" by (cases p)
  show ?case
  proof (cases "mailer_send e (compose_mail em d)")
    case None
    from Cons.IH [of "out @ [compose_mail em d]"] obtain k where
      k: "k \<le> length us"
         "fst (dispatch e us (out @ [compose_mail em d]))
            = (out @ [compose_mail em d]) @ map (\<lambda>(em, d). compose_mail em d) (take k us)"
      by blast
    have "Suc k \<le> length (p # us) \<and> fst (dispatch e (p # us) out)
            = out @ map (\<lambda>(em, d). compose_mail em d) (take (Suc k) (p # us))"
      using k p None by (simp add: send_mail_new_articles_search_def Let_def)
    then show ?thesis by blast
  next
    case (Some x)
    have "Suc 0 \<le> length (p # us) \<and> fst (dispatch e (p # us) out)
            = out @ map (\<lambda>(em, d). compose_mail em d) (take (Suc 0) (p # us))"
      using p Some by (simp add: send_mail_new_articles_search_def Let_def)
    then show ?thesis by blast
  qed
qed

lemma dispatch_complete:
  "snd (dispatch e us out) = None \<Longrightarrow>
     fst (dispatch e us out) = out @ map (\<lambda>(em, d). compose_mail em d) us"
proof (induction us arbitrary: out)
  case Nil
  then show ?case by simp
next
  case (Cons p us)
  obtain em d where p: "p = (em, d)" by (cases p)
  show ?case
  proof (cases "mailer_send e (compose_mail em d)")
    case None
    then show ?thesis using Cons p by (simp add: send_mail_new_articles_search_def Let_def)
  next
    case (Some x)
    then show ?thesis using Cons.prems p by (simp add: send_mail_new_articles_search_def Let_def)
  qed
qed

subsection \<open>The recommender calls\<close>

lemma process_queries:
  "c \<in> set (snd (fst (process_subscription e prev s (us, qs)))) \<Longrightarrow>
     c \<in> set qs \<or> (\<exists>usr. find_by_id e (user_id s) = Inr usr \<and> c = search_call_for usr s)"
  by (auto simp: process_subscription_def Let_def split: sum.splits if_splits)

lemma aggregate_queries:
  "c \<in> set (snd (fst (aggregate e prev ss (us, qs)))) \<Longrightarrow>
     c \<in> set qs
       \<or> (\<exists>s\<in>set ss. \<exists>usr. find_by_id e (user_id s) = Inr usr \<and> c = search_call_for usr s)"
proof (induction ss arbitrary: us qs)
  case Nil
  then show ?case by simp
next
  case (Cons s ss)
  obtain us' qs' r where p: "process_subscription e prev s (us, qs) = ((us', qs'), r)"
    by (metis surj_pair)
  have q: "c \<in> set qs' \<Longrightarrow>
      c \<in> set qs \<or> (\<exists>usr. find_by_id e (user_id s) = Inr usr \<and> c = search_call_for usr s)"
    using process_queries [of c e prev s us qs] p by simp
  show ?case
  proof (cases r)
    case None
    then have "c \<in> set (snd (fst (aggregate e prev ss (us', qs'))))"
      using Cons.prems p by simp
    from Cons.IH [OF this] q show ?thesis by auto
  next
    case (Some x)
    then have "c \<in> set qs'" using Cons.prems p by simp
    with q show ?thesis by auto
  qed
qed

subsection \<open>The run\<close>

lemma run_digests_eq:
  "run_digests (send_subscription_emails e) =
     foldl (contribute e (previous_day_datetime e)) []
       (takeWhile (\<lambda>s. found_for e (previous_day_datetime e) s \<noteq> None)
          (filter receive_email (search_subscriptions e)))"
proof -
  let ?a = "aggregate e (previous_day_datetime e) (filter receive_email (search_subscriptions e)) ([], [])"
  obtain us qs r where a: "?a = ((us, qs), r)" by (metis surj_pair)
  have "run_digests (send_subscription_emails e) = us"
    using a by (cases r) (simp_all add: send_subscription_emails_def split: prod.splits)
  moreover have "us = fst (fst ?a)" using a by simp
  ultimately show ?thesis by (simp only: aggregate_digests)
qed

lemma run_queries_eq:
  "run_queries (send_subscription_emails e) =
     snd (fst (aggregate e (previous_day_datetime e)
                 (filter receive_email (search_subscriptions e)) ([], [])))"
proof -
  let ?a = "aggregate e (previous_day_datetime e) (filter receive_email (search_subscriptions e)) ([], [])"
  obtain us qs r where a: "?a = ((us, qs), r)" by (metis surj_pair)
  show ?thesis
    using a by (cases r) (simp_all add: send_subscription_emails_def split: prod.splits)
qed

lemma run_completed:
  assumes "run_raised (send_subscription_emails e) = None"
  shows "\<forall>s\<in>set (filter receive_email (search_subscriptions e)).
           found_for e (previous_day_datetime e) s \<noteq> None"
    and "run_dispatched (send_subscription_emails e)
           = map (\<lambda>(em, d). compose_mail em d) (run_digests (send_subscription_emails e))"
proof -
  let ?a = "aggregate e (previous_day_datetime e) (filter receive_email (search_subscriptions e)) ([], [])"
  obtain us qs r where a: "?a = ((us, qs), r)" by (metis surj_pair)
  have r: "r = None"
    using assms a by (cases r) (simp_all add: send_subscription_emails_def)
  then have "snd ?a = None" using a by simp
  then show "\<forall>s\<in>set (filter receive_email (search_subscriptions e)).
           found_for e (previous_day_datetime e) s \<noteq> None"
    by (simp only: aggregate_raised)
  obtain out r' where d: "dispatch e us [] = (out, r')" by (cases "dispatch e us []")
  have "r' = None" using assms a r d by (simp add: send_subscription_emails_def)
  then have "snd (dispatch e us []) = None" using d by simp
  from dispatch_complete [OF this] have "out = map (\<lambda>(em, d). compose_mail em d) us"
    using d by simp
  then show "run_dispatched (send_subscription_emails e)
           = map (\<lambda>(em, d). compose_mail em d) (run_digests (send_subscription_emails e))"
    using a r d by (simp add: send_subscription_emails_def)
qed

lemma run_dispatched_take:
  "\<exists>k\<le>length (run_digests (send_subscription_emails e)).
     run_dispatched (send_subscription_emails e)
       = map (\<lambda>(em, d). compose_mail em d) (take k (run_digests (send_subscription_emails e)))"
proof -
  let ?a = "aggregate e (previous_day_datetime e) (filter receive_email (search_subscriptions e)) ([], [])"
  obtain us qs r where a: "?a = ((us, qs), r)" by (metis surj_pair)
  show ?thesis
  proof (cases r)
    case None
    obtain out r' where d: "dispatch e us [] = (out, r')" by (cases "dispatch e us []")
    from dispatch_take [of us e "[]"] obtain k where
      "k \<le> length us" "out = map (\<lambda>(em, d). compose_mail em d) (take k us)"
      using d by auto
    then have "k \<le> length (run_digests (send_subscription_emails e)) \<and>
       run_dispatched (send_subscription_emails e)
         = map (\<lambda>(em, d). compose_mail em d) (take k (run_digests (send_subscription_emails e)))"
      using a None d by (simp add: send_subscription_emails_def)
    then show ?thesis by blast
  next
    case (Some x)
    then have "0 \<le> length (run_digests (send_subscription_emails e)) \<and>
       run_dispatched (send_subscription_emails e)
         = map (\<lambda>(em, d). compose_mail em d) (take 0 (run_digests (send_subscription_emails e)))"
      using a by (simp add: send_subscription_emails_def)
    then show ?thesis by blast
  qed
qed

lemma run_wf: "wf_digests (run_digests (send_subscription_emails e))"
  by (simp only: run_digests_eq wf_foldl [OF wf_empty])


subsection \<open>The example run\<close>

lemma example_run:
  "send_subscription_emails example_env =
     \<lparr>run_digests = [(''ann@example.org'', example_digest)],
      run_queries =
        [search_call_for ann \<lparr>user_id = 1, search_keywords = ''cats'', receive_email = True\<rparr>,
         search_call_for ann \<lparr>user_id = 1, search_keywords = ''dogs'', receive_email = True\<rparr>,
         search_call_for bob \<lparr>user_id = 2, search_keywords = ''birds'', receive_email = True\<rparr>],
      run_dispatched = [compose_mail ''ann@example.org'' example_digest],
      run_raised = None\<rparr>"
  by (simp add: send_subscription_emails_def example_env_def process_subscription_def
      previous_day_datetime_def timedelta_days_def new_articles_found_def search_call_for_def
      ann_def bob_def cat_new_def cat_old_def dog_new_def bird_old_def example_digest_def Let_def
      send_mail_new_articles_search_def)

lemma article_line_template: "article_line p = template_article (snd p) (fst p)"
  by (cases p) (simp add: template_article_def)

lemma keyword_block_shape:
  "keyword_block keyword titles =
     '' '' @ crlf @ template_header keyword @ '' ''
       @ concat (map (\<lambda>(TITLE, URL). crlf @ template_article URL TITLE) titles) @ [LF]"
proof -
  have "concat (map (\<lambda>y. CR # LF # y) (map article_line titles))
          = concat (map (\<lambda>(TITLE, URL). crlf @ template_article URL TITLE) titles)"
    by (induction titles) (simp_all add: article_line_template case_prod_beta)
  then show ?thesis
    by (simp add: keyword_block_def join_Cons template_header_def del: map_map)
qed

lemma subject_quoted:
  "ks \<noteq> [] \<Longrightarrow>
     [SQ] @ join ([SQ] @ '','' @ [SQ]) ks @ [SQ] = join '','' (map (\<lambda>kw. [SQ] @ kw @ [SQ]) ks)"
  by (induction ks rule: induct_list012) simp_all

section \<open>The renderer\<close>

text \<open>
  Claim C6. For a digest with exactly one keyword the notice line of the body reads
  \<^verbatim>\<open>... your subscribed search. You can find ...\<close>, for a digest with two or more
  keywords it reads \<^verbatim>\<open>... your subscribed searches. You can find ...\<close>: the body
  starts with the greeting, a line holding one blank, and that notice line.
\<close>

theorem notice_pluralization:
  "(length d = 1 \<longrightarrow>
      prefix (notice ''search'') (mail_body (compose_mail to d))
      \<and> \<not> prefix (notice ''searches'') (mail_body (compose_mail to d)))
   \<and> (2 \<le> length d \<longrightarrow>
      prefix (notice ''searches'') (mail_body (compose_mail to d))
      \<and> \<not> prefix (notice ''search'') (mail_body (compose_mail to d)))"
  by (simp add: body_shape notice_def del: append_assoc)


theorem notice_pluralization_witness:
  "length single_digest = 1
   \<and> prefix (notice ''search'') (mail_body (compose_mail ''ann@example.org'' single_digest))
   \<and> 2 \<le> length example_digest
   \<and> prefix (notice ''searches'') (mail_body (compose_mail ''ann@example.org'' example_digest))"
  using notice_pluralization [of single_digest "''ann@example.org''"]
    notice_pluralization [of example_digest "''ann@example.org''"]
  by (simp add: single_digest_def example_digest_def)

text \<open>
  Claim C7. For a non-empty digest the subject is \<^verbatim>\<open>New articles for\<close> followed by
  every keyword of the mapping, each in single quotes, separated by commas. The body is
  the notice, then one block per keyword, then the signature. The block of a keyword is
  a line holding one blank, the header line \<^verbatim>\<open>Search: '<keyword>':\<close> (with one blank
  after the colon) and one line \<^verbatim>\<open>- <a href="URL">TITLE</a>\<close> per article; the lines
  are separated by CR LF and the block is closed by LF.
\<close>

theorem mail_matches_template:
  "d \<noteq> [] \<Longrightarrow>
     mail_subject (compose_mail to d) = template_subject (map fst d)
     \<and> mail_body (compose_mail to d) =
         notice (if length d = 1 then ''search'' else ''searches'') @ '' ''
           @ concat (map (\<lambda>(keyword, titles).
                '' '' @ crlf @ template_header keyword @ '' ''
                  @ concat (map (\<lambda>(TITLE, URL). crlf @ template_article URL TITLE) titles)
                  @ [LF]) d)
           @ signature"
proof -
  assume d: "d \<noteq> []"
  then have ks: "map fst d \<noteq> []" by simp
  have s: "mail_subject (compose_mail to d) = template_subject (map fst d)"
    using subject_quoted [OF ks] by (simp add: compose_mail_def Let_def template_subject_def)
  have n: "(if length d > 1 then ''searches'' else ''search'')
             = (if length d = 1 then ''search'' else ''searches'')"
    using d by (cases d) auto
  have b: "(\<lambda>(keyword, titles). keyword_block keyword titles)
      = (\<lambda>(keyword, titles). '' '' @ crlf @ template_header keyword @ '' ''
            @ concat (map (\<lambda>(TITLE, URL). crlf @ template_article URL TITLE) titles) @ [LF])"
    by (simp add: keyword_block_shape)
  show ?thesis unfolding body_shape n b using s by simp
qed


theorem mail_matches_template_witness:
  "example_digest \<noteq> []
   \<and> mail_subject (compose_mail ''ann@example.org'' example_digest)
       = ''New articles for '' @ [SQ] @ ''cats'' @ [SQ] @ '','' @ [SQ] @ ''dogs'' @ [SQ]
   \<and> mail_body (compose_mail ''ann@example.org'' example_digest)
       = notice ''searches'' @ '' ''
         @ '' '' @ crlf @ ''Search: '' @ [SQ] @ ''cats'' @ [SQ] @ '': '' @ crlf
         @ ''- <a href='' @ [DQ] @ ''https://news.example/cats-home'' @ [DQ] @ ''>Cats at home</a>''
         @ [LF]
         @ '' '' @ crlf @ ''Search: '' @ [SQ] @ ''dogs'' @ [SQ] @ '': '' @ crlf
         @ ''- <a href='' @ [DQ] @ ''https://news.example/dogs-town'' @ [DQ] @ ''>Dogs in town</a>''
         @ [LF]
         @ signature"
  using mail_matches_template [of example_digest "''ann@example.org''"]
  by (simp add: example_digest_def template_subject_def template_header_def
      template_article_def)

section \<open>The run of the mailer script\<close>

lemma mem_lookup:
  "wf_digests us \<Longrightarrow> (em, d) \<in> set us \<Longrightarrow> (kw, ps) \<in> set d \<Longrightarrow> lookup us em kw = Some ps"
  by (auto simp: wf_digests_def lookup_def)

lemma lookup_mem:
  "lookup us em kw = Some ps \<Longrightarrow> \<exists>d. (em, d) \<in> set us \<and> (kw, ps) \<in> set d"
  by (auto simp: lookup_def split: option.splits dest: map_of_SomeD)

lemma entry_of_SomeD:
  "entry_of e prev s = Some (em, kw, ps) \<Longrightarrow>
     \<exists>usr articles. find_by_id e (user_id s) = Inr usr
        \<and> article_search_for_user e (search_call_for usr s) = Inr articles
        \<and> new_articles_found prev articles \<noteq> []
        \<and> em = email usr \<and> kw = search_keywords s
        \<and> ps = pairs_of (new_articles_found prev articles)"
  by (auto simp: entry_of_def found_for_def split: option.splits sum.splits if_splits)

lemma run_entry_origin:
  assumes "(em, d) \<in> set (run_digests (send_subscription_emails e))" "(kw, ps) \<in> set d"
  shows "\<exists>s\<in>set (search_subscriptions e).
           receive_email s \<and> entry_of e (previous_day_datetime e) s = Some (em, kw, ps)"
proof -
  let ?prev = "previous_day_datetime e"
  let ?ss = "takeWhile (\<lambda>s. found_for e ?prev s \<noteq> None)
               (filter receive_email (search_subscriptions e))"
  have "lookup (run_digests (send_subscription_emails e)) em kw = Some ps"
    using mem_lookup [OF run_wf assms] .
  then have "lookup (foldl (contribute e ?prev) [] ?ss) em kw = Some ps"
    by (simp only: run_digests_eq)
  from lookup_origin [OF this] obtain pre s post where
    s: "?ss = pre @ s # post" "entry_of e ?prev s = Some (em, kw, ps)" by blast
  have "s \<in> set ?ss" using s(1) by simp
  then have "s \<in> set (filter receive_email (search_subscriptions e))"
    by (rule set_takeWhileD [THEN conjunct1])
  then show ?thesis using s(2) by auto
qed

text \<open>
  Claim C1. A candidate is kept by the recency filter exactly when its publication time
  is strictly later than the cutoff, the clock's reading minus 24 hours
  (\<open>86400000000\<close> microseconds); the kept candidates stay in the recommender's order.
  Every \<open>(title, url)\<close> pair stored in the dictionary of a run comes from a candidate,
  returned for one of the subscriptions, that is strictly later than the cutoff.
\<close>

theorem recency_filter_strict:
  "(a \<in> set (new_articles_found (previous_day_datetime e) articles)
      \<longleftrightarrow> a \<in> set articles \<and> now e - 86400000000 < published_time a)
   \<and> subseq (new_articles_found (previous_day_datetime e) articles) articles
   \<and> (\<forall>(em, d)\<in>set (run_digests (send_subscription_emails e)). \<forall>(kw, ps)\<in>set d. \<forall>p\<in>set ps.
        \<exists>s\<in>set (search_subscriptions e). \<exists>usr candidates.
           find_by_id e (user_id s) = Inr usr
           \<and> article_search_for_user e (search_call_for usr s) = Inr candidates
           \<and> (\<exists>c\<in>set candidates. now e - 86400000000 < published_time c
                  \<and> p = (title c, url c)))"
proof -
  have cut: "previous_day_datetime e = now e - 86400000000"
    by (simp add: previous_day_datetime_def timedelta_days_def)
  have 1: "a \<in> set (new_articles_found (previous_day_datetime e) articles)
      \<longleftrightarrow> a \<in> set articles \<and> now e - 86400000000 < published_time a"
    by (auto simp: new_articles_found_def cut)
  have 2: "subseq (new_articles_found (previous_day_datetime e) articles) articles"
    by (simp add: new_articles_found_def)
  have 3: "\<exists>s\<in>set (search_subscriptions e). \<exists>usr candidates.
           find_by_id e (user_id s) = Inr usr
           \<and> article_search_for_user e (search_call_for usr s) = Inr candidates
           \<and> (\<exists>c\<in>set candidates. now e - 86400000000 < published_time c
                  \<and> p = (title c, url c))"
    if "(em, d) \<in> set (run_digests (send_subscription_emails e))" "(kw, ps) \<in> set d"
       "p \<in> set ps" for em d kw ps p
  proof -
    from run_entry_origin [OF that(1,2)] obtain s where
      s: "s \<in> set (search_subscriptions e)"
         "entry_of e (previous_day_datetime e) s = Some (em, kw, ps)" by blast
    from entry_of_SomeD [OF s(2)] obtain usr candidates where
      u: "find_by_id e (user_id s) = Inr usr"
         "article_search_for_user e (search_call_for usr s) = Inr candidates"
         "ps = pairs_of (new_articles_found (previous_day_datetime e) candidates)" by blast
    from that(3) u(3) obtain c where
      c: "c \<in> set (new_articles_found (previous_day_datetime e) candidates)"
         "p = (title c, url c)"
      by (auto simp: pairs_of_def)
    have "c \<in> set candidates \<and> now e - 86400000000 < published_time c"
      using c(1) by (auto simp: new_articles_found_def cut)
    then show ?thesis using s(1) u(1,2) c(2) by blast
  qed
  show ?thesis using 1 2 3 by blast
qed

text \<open>
  Claim C2. Every mail handed to the transport goes to the address of a user who owns
  a subscription with e-mail delivery whose filtered candidate list is not empty. So an
  address none of whose subscriptions has a qualifying article gets no mail.
\<close>

theorem no_mail_without_new_article:
  "\<forall>m\<in>set (run_dispatched (send_subscription_emails e)).
     \<exists>s\<in>set (search_subscriptions e). \<exists>usr articles.
        receive_email s \<and> find_by_id e (user_id s) = Inr usr \<and> email usr = mail_to m
        \<and> article_search_for_user e (search_call_for usr s) = Inr articles
        \<and> new_articles_found (previous_day_datetime e) articles \<noteq> []"
proof
  fix m
  let ?r = "send_subscription_emails e"
  assume m: "m \<in> set (run_dispatched ?r)"
  from run_dispatched_take [of e] obtain k where
    "run_dispatched ?r = map (\<lambda>(em, d). compose_mail em d) (take k (run_digests ?r))"
    by blast
  with m obtain em d where
    ed: "(em, d) \<in> set (take k (run_digests ?r))" "m = compose_mail em d" by auto
  have mem: "(em, d) \<in> set (run_digests ?r)" using ed(1) by (rule in_set_takeD)
  then have "d \<noteq> []" using run_wf [of e] by (auto simp: wf_digests_def)
  then obtain kw ps where "(kw, ps) \<in> set d" by (cases d) auto
  from run_entry_origin [OF mem this] obtain s where
    s: "s \<in> set (search_subscriptions e)" "receive_email s"
       "entry_of e (previous_day_datetime e) s = Some (em, kw, ps)" by blast
  have to: "mail_to m = em" using ed(2) by (simp add: compose_mail_def Let_def)
  from entry_of_SomeD [OF s(3)] obtain usr articles where
    u: "find_by_id e (user_id s) = Inr usr"
       "article_search_for_user e (search_call_for usr s) = Inr articles"
       "new_articles_found (previous_day_datetime e) articles \<noteq> []" "em = email usr"
    by blast
  have "receive_email s \<and> find_by_id e (user_id s) = Inr usr \<and> email usr = mail_to m
        \<and> article_search_for_user e (search_call_for usr s) = Inr articles
        \<and> new_articles_found (previous_day_datetime e) articles \<noteq> []"
    using s(2) u to by simp
  then show "\<exists>s\<in>set (search_subscriptions e). \<exists>usr articles.
        receive_email s \<and> find_by_id e (user_id s) = Inr usr \<and> email usr = mail_to m
        \<and> article_search_for_user e (search_call_for usr s) = Inr articles
        \<and> new_articles_found (previous_day_datetime e) articles \<noteq> []"
    using s(1) by blast
qed


theorem recency_filter_strict_witness:
  "cat_new \<in> set (new_articles_found (previous_day_datetime example_env) [cat_new, cat_old])
   \<and> published_time cat_old = now example_env - 86400000000
   \<and> cat_old \<notin> set (new_articles_found (previous_day_datetime example_env) [cat_new, cat_old])
   \<and> (''ann@example.org'', example_digest)
        \<in> set (run_digests (send_subscription_emails example_env))
   \<and> (\<exists>s\<in>set (search_subscriptions example_env). \<exists>usr candidates.
         find_by_id example_env (user_id s) = Inr usr
         \<and> article_search_for_user example_env (search_call_for usr s) = Inr candidates
         \<and> (\<exists>c\<in>set candidates. now example_env - 86400000000 < published_time c
               \<and> (''Cats at home'', ''https://news.example/cats-home'') = (title c, url c)))"
proof -
  let ?p = "(''Cats at home'', ''https://news.example/cats-home'')"
  have t: "now example_env - 86400000000 = 913600000000"
    by (simp add: example_env_def)
  have 1: "cat_new \<in> set (new_articles_found (previous_day_datetime example_env) [cat_new, cat_old])"
    using recency_filter_strict [of cat_new example_env "[cat_new, cat_old]"]
    by (simp add: t cat_new_def)
  have 2: "cat_old \<notin> set (new_articles_found (previous_day_datetime example_env) [cat_new, cat_old])"
    using recency_filter_strict [of cat_old example_env "[cat_new, cat_old]"]
    by (simp add: t cat_old_def)
  have r: "(''ann@example.org'', example_digest)
             \<in> set (run_digests (send_subscription_emails example_env))"
    by (simp add: example_run)
  have d: "(''cats'', [?p]) \<in> set example_digest" by (simp add: example_digest_def)
  have "\<forall>(em, d)\<in>set (run_digests (send_subscription_emails example_env)).
          \<forall>(kw, ps)\<in>set d. \<forall>p\<in>set ps.
        \<exists>s\<in>set (search_subscriptions example_env). \<exists>usr candidates.
           find_by_id example_env (user_id s) = Inr usr
           \<and> article_search_for_user example_env (search_call_for usr s) = Inr candidates
           \<and> (\<exists>c\<in>set candidates. now example_env - 86400000000 < published_time c
                  \<and> p = (title c, url c))"
    using recency_filter_strict [of cat_new example_env "[cat_new, cat_old]"] by blast
  from bspec [OF this r] have "\<forall>(kw, ps)\<in>set example_digest. \<forall>p\<in>set ps.
        \<exists>s\<in>set (search_subscriptions example_env). \<exists>usr candidates.
           find_by_id example_env (user_id s) = Inr usr
           \<and> article_search_for_user example_env (search_call_for usr s) = Inr candidates
           \<and> (\<exists>c\<in>set candidates. now example_env - 86400000000 < published_time c
                  \<and> p = (title c, url c))"
    by simp
  from bspec [OF this d] have 3: "\<exists>s\<in>set (search_subscriptions example_env). \<exists>usr candidates.
           find_by_id example_env (user_id s) = Inr usr
           \<and> article_search_for_user example_env (search_call_for usr s) = Inr candidates
           \<and> (\<exists>c\<in>set candidates. now example_env - 86400000000 < published_time c
                  \<and> ?p = (title c, url c))"
    by simp
  have 4: "published_time cat_old = now example_env - 86400000000"
    by (simp add: t cat_old_def)
  show ?thesis using 1 2 3 4 r by blast
qed

theorem no_mail_without_new_article_witness:
  "compose_mail ''ann@example.org'' example_digest
      \<in> set (run_dispatched (send_subscription_emails example_env))
   \<and> (\<exists>s\<in>set (search_subscriptions example_env). \<exists>usr articles.
        receive_email s \<and> find_by_id example_env (user_id s) = Inr usr
        \<and> email usr = ''ann@example.org''
        \<and> article_search_for_user example_env (search_call_for usr s) = Inr articles
        \<and> new_articles_found (previous_day_datetime example_env) articles \<noteq> [])
   \<and> ''bob@example.org''
        \<notin> mail_to ` set (run_dispatched (send_subscription_emails example_env))"
proof -
  let ?m = "compose_mail ''ann@example.org'' example_digest"
  have m: "?m \<in> set (run_dispatched (send_subscription_emails example_env))"
    by (simp add: example_run)
  have to: "mail_to ?m = ''ann@example.org''" by (simp add: compose_mail_def Let_def)
  from bspec [OF no_mail_without_new_article [of example_env] m]
  have 1: "\<exists>s\<in>set (search_subscriptions example_env). \<exists>usr articles.
        receive_email s \<and> find_by_id example_env (user_id s) = Inr usr
        \<and> email usr = ''ann@example.org''
        \<and> article_search_for_user example_env (search_call_for usr s) = Inr articles
        \<and> new_articles_found (previous_day_datetime example_env) articles \<noteq> []"
    by (simp only: to)
  have 2: "''bob@example.org''
        \<notin> mail_to ` set (run_dispatched (send_subscription_emails example_env))"
    by (simp add: example_run to)
  show ?thesis using m 1 2 by blast
qed

lemma process_subscription_rows:
  "process_subscription (e\<lparr>search_subscriptions := rows\<rparr>) prev s st
     = process_subscription e prev s st"
  by (simp add: process_subscription_def Let_def split: prod.splits sum.splits)

lemma aggregate_rows:
  "aggregate (e\<lparr>search_subscriptions := rows\<rparr>) prev ss st = aggregate e prev ss st"
  by (induction ss arbitrary: st) (simp_all add: process_subscription_rows)

lemma dispatch_rows:
  "dispatch (e\<lparr>search_subscriptions := rows\<rparr>) us out = dispatch e us out"
  by (induction us arbitrary: out)
    (auto simp: send_mail_new_articles_search_def Let_def split: option.splits)

lemma process_queries_length:
  "length (snd (fst (process_subscription e prev s (us, qs)))) \<le> Suc (length qs)"
  by (simp add: process_subscription_def Let_def split: sum.splits)

lemma aggregate_queries_length:
  "length (snd (fst (aggregate e prev ss (us, qs)))) \<le> length qs + length ss"
proof (induction ss arbitrary: us qs)
  case Nil
  then show ?case by simp
next
  case (Cons s ss)
  obtain us' qs' r where p: "process_subscription e prev s (us, qs) = ((us', qs'), r)"
    by (metis surj_pair)
  have l: "length qs' \<le> Suc (length qs)"
    using process_queries_length [of e prev s us qs] p by simp
  show ?case
  proof (cases r)
    case None
    then show ?thesis using p l Cons.IH [of us' qs'] by simp
  next
    case (Some x)
    then show ?thesis using p l by simp
  qed
qed

text \<open>
  Claim C3. Rows with \<^verbatim>\<open>receive_email\<close> false play no part in a run: deleting them from
  the table leaves the whole run (dictionary, recommender calls, mails, exception)
  unchanged; there are at most as many recommender calls as rows with delivery, each
  made for such a row; and every entry of the dictionary was stored for such a row.
\<close>

theorem unsubscribed_rows_ignored:
  "send_subscription_emails
      (e\<lparr>search_subscriptions := filter receive_email (search_subscriptions e)\<rparr>)
     = send_subscription_emails e
   \<and> length (run_queries (send_subscription_emails e))
        \<le> length (filter receive_email (search_subscriptions e))
   \<and> (\<forall>c\<in>set (run_queries (send_subscription_emails e)).
         \<exists>s\<in>set (search_subscriptions e). \<exists>usr.
            receive_email s \<and> find_by_id e (user_id s) = Inr usr \<and> c = search_call_for usr s)
   \<and> (\<forall>(em, d)\<in>set (run_digests (send_subscription_emails e)). \<forall>(kw, ps)\<in>set d.
         \<exists>s\<in>set (search_subscriptions e).
            receive_email s \<and> entry_of e (previous_day_datetime e) s = Some (em, kw, ps))"
proof -
  let ?r = "send_subscription_emails e"
  have 1: "send_subscription_emails
      (e\<lparr>search_subscriptions := filter receive_email (search_subscriptions e)\<rparr>) = ?r"
    by (simp add: send_subscription_emails_def previous_day_datetime_def aggregate_rows
        dispatch_rows split: prod.splits option.splits)
  have 2: "length (run_queries ?r) \<le> length (filter receive_email (search_subscriptions e))"
    using aggregate_queries_length
      [of e "previous_day_datetime e" "filter receive_email (search_subscriptions e)" "[]" "[]"]
    by (simp add: run_queries_eq)
  have 3: "\<exists>s\<in>set (search_subscriptions e). \<exists>usr.
            receive_email s \<and> find_by_id e (user_id s) = Inr usr \<and> c = search_call_for usr s"
    if "c \<in> set (run_queries ?r)" for c
    using aggregate_queries
      [of c e "previous_day_datetime e" "filter receive_email (search_subscriptions e)" "[]" "[]"]
      that
    by (auto simp: run_queries_eq)
  have 4: "\<exists>s\<in>set (search_subscriptions e).
            receive_email s \<and> entry_of e (previous_day_datetime e) s = Some (em, kw, ps)"
    if "(em, d) \<in> set (run_digests ?r)" "(kw, ps) \<in> set d" for em d kw ps
    using run_entry_origin [OF that] .
  show ?thesis using 1 2 3 4 by blast
qed

theorem unsubscribed_rows_ignored_witness:
  "\<lparr>user_id = 2, search_keywords = ''cats'', receive_email = False\<rparr>
      \<in> set (search_subscriptions example_env)
   \<and> send_subscription_emails
        (example_env\<lparr>search_subscriptions :=
           filter receive_email (search_subscriptions example_env)\<rparr>)
       = send_subscription_emails example_env
   \<and> search_call_for bob \<lparr>user_id = 2, search_keywords = ''birds'', receive_email = True\<rparr>
        \<in> set (run_queries (send_subscription_emails example_env))
   \<and> search_call_for bob \<lparr>user_id = 2, search_keywords = ''cats'', receive_email = False\<rparr>
        \<notin> set (run_queries (send_subscription_emails example_env))
   \<and> length (run_queries (send_subscription_emails example_env)) \<le> 3"
proof -
  have 1: "send_subscription_emails
        (example_env\<lparr>search_subscriptions :=
           filter receive_email (search_subscriptions example_env)\<rparr>)
       = send_subscription_emails example_env"
    using unsubscribed_rows_ignored [of example_env] by blast
  have "length (run_queries (send_subscription_emails example_env))
          \<le> length (filter receive_email (search_subscriptions example_env))"
    using unsubscribed_rows_ignored [of example_env] by blast
  then have 2: "length (run_queries (send_subscription_emails example_env)) \<le> 3"
    by (simp add: example_env_def)
  have 3: "\<lparr>user_id = 2, search_keywords = ''cats'', receive_email = False\<rparr>
      \<in> set (search_subscriptions example_env)"
    by (simp add: example_env_def)
  have 4: "search_call_for bob \<lparr>user_id = 2, search_keywords = ''birds'', receive_email = True\<rparr>
        \<in> set (run_queries (send_subscription_emails example_env))"
    by (simp add: example_run)
  have 5: "search_call_for bob \<lparr>user_id = 2, search_keywords = ''cats'', receive_email = False\<rparr>
        \<notin> set (run_queries (send_subscription_emails example_env))"
    by (simp add: example_run search_call_for_def ann_def bob_def)
  show ?thesis using 1 2 3 4 5 by blast
qed


section \<open>The exercise-outcome endpoint\<close>










section \<open>One mail per address\<close>

lemma mail_to_compose: "mail_to (compose_mail em d) = em"
  by (simp add: compose_mail_def Let_def)

lemma run_processed_all:
  assumes "run_raised (send_subscription_emails e) = None"
  shows "run_digests (send_subscription_emails e) =
           foldl (contribute e (previous_day_datetime e)) []
             (filter receive_email (search_subscriptions e))"
proof -
  have "takeWhile (\<lambda>s. found_for e (previous_day_datetime e) s \<noteq> None)
          (filter receive_email (search_subscriptions e))
        = filter receive_email (search_subscriptions e)"
    using run_completed(1) [OF assms] by (simp only: takeWhile_eq_all_conv)
  then show ?thesis by (simp only: run_digests_eq)
qed

lemma run_distinct_recipients:
  "distinct (map mail_to (run_dispatched (send_subscription_emails e)))"
proof -
  let ?r = "send_subscription_emails e"
  from run_dispatched_take [of e] obtain k where
    k: "run_dispatched ?r = map (\<lambda>(em, d). compose_mail em d) (take k (run_digests ?r))"
    by blast
  have "map mail_to (run_dispatched ?r) = take k (map fst (run_digests ?r))"
    by (simp add: k take_map case_prod_beta mail_to_compose comp_def)
  moreover have "distinct (map fst (run_digests ?r))"
    using run_wf [of e] by (simp add: wf_digests_def)
  ultimately show ?thesis by (simp add: distinct_take)
qed

text \<open>
  Claim C5. In every run each address is a key of the dictionary at most once and each
  keyword is a key of an address's digest at most once, and no two mails go to the same
  address. In a run that no exception ends, the mails handed to the transport are the
  renderings of the dictionary's items, one per key and in the order of the keys; and
  the list stored under an address and a keyword is the one of the last subscription
  processed that wrote under that address and keyword.
\<close>

theorem one_dispatch_per_address:
  "distinct (map fst (run_digests (send_subscription_emails e)))
   \<and> (\<forall>(em, d)\<in>set (run_digests (send_subscription_emails e)). distinct (map fst d))
   \<and> distinct (map mail_to (run_dispatched (send_subscription_emails e)))
   \<and> (run_raised (send_subscription_emails e) = None \<longrightarrow>
        run_dispatched (send_subscription_emails e)
          = map (\<lambda>(em, d). compose_mail em d) (run_digests (send_subscription_emails e))
        \<and> map mail_to (run_dispatched (send_subscription_emails e))
          = map fst (run_digests (send_subscription_emails e))
        \<and> (\<forall>(em, d)\<in>set (run_digests (send_subscription_emails e)). \<forall>(kw, ps)\<in>set d.
             \<exists>pre s post.
               filter receive_email (search_subscriptions e) = pre @ s # post
               \<and> entry_of e (previous_day_datetime e) s = Some (em, kw, ps)
               \<and> (\<forall>s'\<in>set post. \<forall>ps'.
                     entry_of e (previous_day_datetime e) s' \<noteq> Some (em, kw, ps'))))"
proof -
  let ?r = "send_subscription_emails e"
  let ?prev = "previous_day_datetime e"
  have 1: "distinct (map fst (run_digests ?r))"
    using run_wf [of e] by (simp add: wf_digests_def)
  have 2: "\<forall>(em, d)\<in>set (run_digests ?r). distinct (map fst d)"
    using run_wf [of e] by (auto simp: wf_digests_def)
  have 3: "distinct (map mail_to (run_dispatched ?r))" by (rule run_distinct_recipients)
  have 4: "run_dispatched ?r = map (\<lambda>(em, d). compose_mail em d) (run_digests ?r)
        \<and> map mail_to (run_dispatched ?r) = map fst (run_digests ?r)
        \<and> (\<forall>(em, d)\<in>set (run_digests ?r). \<forall>(kw, ps)\<in>set d.
             \<exists>pre s post.
               filter receive_email (search_subscriptions e) = pre @ s # post
               \<and> entry_of e ?prev s = Some (em, kw, ps)
               \<and> (\<forall>s'\<in>set post. \<forall>ps'. entry_of e ?prev s' \<noteq> Some (em, kw, ps')))"
    if fin: "run_raised ?r = None"
  proof -
    have a: "run_dispatched ?r = map (\<lambda>(em, d). compose_mail em d) (run_digests ?r)"
      by (rule run_completed(2) [OF fin])
    have b: "map mail_to (run_dispatched ?r) = map fst (run_digests ?r)"
      by (simp add: a case_prod_beta mail_to_compose comp_def)
    have c: "\<exists>pre s post.
               filter receive_email (search_subscriptions e) = pre @ s # post
               \<and> entry_of e ?prev s = Some (em, kw, ps)
               \<and> (\<forall>s'\<in>set post. \<forall>ps'. entry_of e ?prev s' \<noteq> Some (em, kw, ps'))"
      if "(em, d) \<in> set (run_digests ?r)" "(kw, ps) \<in> set d" for em d kw ps
    proof -
      have "lookup (run_digests ?r) em kw = Some ps"
        using mem_lookup [OF run_wf that] .
      then have "lookup (foldl (contribute e ?prev) []
                   (filter receive_email (search_subscriptions e))) em kw = Some ps"
        by (simp only: run_processed_all [OF fin])
      from lookup_origin [OF this] show ?thesis .
    qed
    show ?thesis using a b c by blast
  qed
  show ?thesis using 1 2 3 4 by blast
qed

theorem one_dispatch_per_address_witness:
  "run_raised (send_subscription_emails example_env) = None
   \<and> length (filter receive_email (search_subscriptions example_env)) = 3
   \<and> run_dispatched (send_subscription_emails example_env)
       = [compose_mail ''ann@example.org'' example_digest]
   \<and> map mail_to (run_dispatched (send_subscription_emails example_env))
       = map fst (run_digests (send_subscription_emails example_env))
   \<and> distinct (map mail_to (run_dispatched (send_subscription_emails example_env)))"
proof -
  have d: "run_raised (send_subscription_emails example_env) = None"
    by (simp add: example_run)
  have 1: "map mail_to (run_dispatched (send_subscription_emails example_env))
       = map fst (run_digests (send_subscription_emails example_env))"
    using one_dispatch_per_address [of example_env] d by blast
  have 2: "distinct (map mail_to (run_dispatched (send_subscription_emails example_env)))"
    using one_dispatch_per_address [of example_env] by blast
  have 3: "length (filter receive_email (search_subscriptions example_env)) = 3"
    by (simp add: example_env_def)
  have 4: "run_dispatched (send_subscription_emails example_env)
       = [compose_mail ''ann@example.org'' example_digest]"
    by (simp add: example_run)
  show ?thesis using d 1 2 3 4 by blast
qed


section \<open>Order of the digest and shared addresses\<close>

lemma run_digest_for:
  assumes "run_raised (send_subscription_emails e) = None"
    and "(em, d) \<in> set (run_digests (send_subscription_emails e))"
  shows "d = foldl (\<lambda>d (kw, ps). dict_set kw ps d) []
               (entries_for e (previous_day_datetime e) em
                  (filter receive_email (search_subscriptions e)))"
proof -
  let ?us = "run_digests (send_subscription_emails e)"
  have "map_of ?us em = Some d" using wf_in_iff [OF run_wf] assms(2) by simp
  then have "d = dict_get ?us em []" by (simp add: dict_get_map_of)
  then show ?thesis by (simp only: run_processed_all [OF assms(1)] digest_of_foldl)
qed

lemma entries_for_Cons:
  "entries_for e prev em (s # ss) =
     (case entry_of e prev s of
        None \<Rightarrow> []
      | Some (em', kw, ps) \<Rightarrow> if em' = em then [(kw, ps)] else []) @ entries_for e prev em ss"
  by (simp add: entries_for_def)

lemma entries_for_nonempty:
  "entries_for e prev em ss \<noteq> [] \<Longrightarrow>
     \<exists>s\<in>set ss. \<exists>kw ps. entry_of e prev s = Some (em, kw, ps)"
proof (induction ss)
  case Nil
  then show ?case by (simp add: entries_for_def)
next
  case (Cons s ss)
  show ?case
  proof (cases "\<exists>kw ps. entry_of e prev s = Some (em, kw, ps)")
    case True
    then show ?thesis by auto
  next
    case False
    then have "entries_for e prev em (s # ss) = entries_for e prev em ss"
      by (auto simp: entries_for_Cons split: option.splits)
    then show ?thesis using Cons by auto
  qed
qed

lemma entry_has_digest:
  assumes "s \<in> set ss" "entry_of e prev s = Some (em, kw, ps)"
  shows "\<exists>d. (em, d) \<in> set (foldl (contribute e prev) [] ss) \<and> kw \<in> fst ` set d"
proof -
  from lookup_present [OF assms] obtain ps' where
    "lookup (foldl (contribute e prev) [] ss) em kw = Some ps'" by blast
  from lookup_mem [OF this] show ?thesis by force
qed

lemma lookup_unchanged:
  "\<forall>s'\<in>set post. \<forall>ps'. entry_of e prev s' \<noteq> Some (em, kw, ps') \<Longrightarrow>
     lookup (foldl (contribute e prev) us post) em kw = lookup us em kw"
proof (induction post arbitrary: us)
  case Nil
  then show ?case by simp
next
  case (Cons s post)
  have "lookup (contribute e prev us s) em kw = lookup us em kw"
    using Cons.prems by (auto simp: lookup_contribute split: option.splits)
  then show ?case using Cons by simp
qed

lemma lookup_last:
  assumes "entry_of e prev s = Some (em, kw, ps)"
    and "\<forall>s'\<in>set post. \<forall>ps'. entry_of e prev s' \<noteq> Some (em, kw, ps')"
  shows "lookup (foldl (contribute e prev) us (pre @ s # post)) em kw = Some ps"
  using assms by (simp add: lookup_unchanged lookup_contribute)

lemma filter_key_single:
  "distinct (map fst us) \<Longrightarrow> (em, d) \<in> set us \<Longrightarrow> filter (\<lambda>p. fst p = em) us = [(em, d)]"
proof (induction us)
  case Nil
  then show ?case by simp
next
  case (Cons p us)
  show ?case
  proof (cases "fst p = em")
    case True
    then have "p = (em, d)" using Cons.prems by (cases p) (auto simp: image_iff)
    moreover have "filter (\<lambda>p. fst p = em) us = []"
      using Cons.prems True by (auto simp: filter_empty_conv image_iff)
    ultimately show ?thesis by simp
  next
    case False
    then show ?thesis using Cons by auto
  qed
qed

text \<open>
  Claim C4. The body holds the keyword blocks in the order of the digest's items, and
  the block of a keyword holds the article lines in the order of the filtered
  candidates. In a run that no exception ends, each mail is rendered from the digest
  that results from storing the recipient's keyword entries in processing order. In
  particular, when the entries stored for an address are those of \<^verbatim>\<open>cats\<close> and then
  \<^verbatim>\<open>dogs\<close>, the mail to that address has the \<^verbatim>\<open>cats\<close> block before the \<^verbatim>\<open>dogs\<close>
  block and the subject \<^verbatim>\<open>New articles for 'cats','dogs'\<close>.
\<close>

theorem order_preserved:
  "mail_body (compose_mail to d) =
      notice (if length d > 1 then ''searches'' else ''search'') @ '' ''
        @ concat (map (\<lambda>(keyword, titles). keyword_block keyword titles) d) @ signature
   \<and> keyword_block keyword (pairs_of found) =
       '' '' @ crlf @ template_header keyword @ '' ''
         @ concat (map (\<lambda>article. crlf @ template_article (url article) (title article)) found)
         @ [LF]
   \<and> (run_raised (send_subscription_emails e) = None \<longrightarrow>
        (\<forall>m\<in>set (run_dispatched (send_subscription_emails e)).
            m = compose_mail (mail_to m)
                  (foldl (\<lambda>d (kw, ps). dict_set kw ps d) []
                     (entries_for e (previous_day_datetime e) (mail_to m)
                        (filter receive_email (search_subscriptions e)))))
        \<and> (entries_for e (previous_day_datetime e) em
               (filter receive_email (search_subscriptions e))
             = [(''cats'', ps1), (''dogs'', ps2)] \<longrightarrow>
            (\<exists>m\<in>set (run_dispatched (send_subscription_emails e)).
               mail_to m = em
               \<and> mail_subject m
                   = ''New articles for '' @ [SQ] @ ''cats'' @ [SQ] @ '','' @ [SQ] @ ''dogs'' @ [SQ]
               \<and> mail_body m
                   = notice ''searches'' @ '' '' @ keyword_block ''cats'' ps1
                       @ keyword_block ''dogs'' ps2 @ signature)))"
proof -
  let ?r = "send_subscription_emails e"
  let ?prev = "previous_day_datetime e"
  let ?ss = "filter receive_email (search_subscriptions e)"
  have 1: "mail_body (compose_mail to d) =
      notice (if length d > 1 then ''searches'' else ''search'') @ '' ''
        @ concat (map (\<lambda>(keyword, titles). keyword_block keyword titles) d) @ signature"
    by (rule body_shape)
  have 2: "keyword_block keyword (pairs_of found) =
       '' '' @ crlf @ template_header keyword @ '' ''
         @ concat (map (\<lambda>article. crlf @ template_article (url article) (title article)) found)
         @ [LF]"
    by (simp add: keyword_block_shape pairs_of_def comp_def)
  have 3: "m = compose_mail (mail_to m)
                  (foldl (\<lambda>d (kw, ps). dict_set kw ps d) [] (entries_for e ?prev (mail_to m) ?ss))"
    if fin: "run_raised ?r = None" and m: "m \<in> set (run_dispatched ?r)" for m
  proof -
    from m run_completed(2) [OF fin] obtain em' d' where
      ed: "(em', d') \<in> set (run_digests ?r)" "m = compose_mail em' d'" by auto
    have "mail_to m = em'" using ed(2) by (simp add: mail_to_compose)
    then show ?thesis using run_digest_for [OF fin ed(1)] ed(2) by simp
  qed
  have 4: "\<exists>m\<in>set (run_dispatched ?r).
               mail_to m = em
               \<and> mail_subject m
                   = ''New articles for '' @ [SQ] @ ''cats'' @ [SQ] @ '','' @ [SQ] @ ''dogs'' @ [SQ]
               \<and> mail_body m
                   = notice ''searches'' @ '' '' @ keyword_block ''cats'' ps1
                       @ keyword_block ''dogs'' ps2 @ signature"
    if fin: "run_raised ?r = None"
      and en: "entries_for e ?prev em ?ss = [(''cats'', ps1), (''dogs'', ps2)]"
  proof -
    let ?d = "[(''cats'', ps1), (''dogs'', ps2)]"
    have "entries_for e ?prev em ?ss \<noteq> []" using en by simp
    from entries_for_nonempty [OF this] obtain s kw ps where
      s: "s \<in> set ?ss" "entry_of e ?prev s = Some (em, kw, ps)" by blast
    from entry_has_digest [OF s] obtain d' where
      "(em, d') \<in> set (foldl (contribute e ?prev) [] ?ss)" by blast
    then have mem: "(em, d') \<in> set (run_digests ?r)"
      by (simp only: run_processed_all [OF fin])
    have "d' = ?d" using run_digest_for [OF fin mem] en by simp
    then have "compose_mail em ?d \<in> set (run_dispatched ?r)"
      using mem run_completed(2) [OF fin] by force
    moreover have "mail_to (compose_mail em ?d) = em" by (rule mail_to_compose)
    moreover have "mail_subject (compose_mail em ?d)
        = ''New articles for '' @ [SQ] @ ''cats'' @ [SQ] @ '','' @ [SQ] @ ''dogs'' @ [SQ]"
      by (simp add: compose_mail_def Let_def)
    moreover have "mail_body (compose_mail em ?d)
        = notice ''searches'' @ '' '' @ keyword_block ''cats'' ps1
            @ keyword_block ''dogs'' ps2 @ signature"
      by (simp add: body_shape)
    ultimately show ?thesis by blast
  qed
  show ?thesis using 1 2 3 4 by blast
qed


lemma example_entries:
  "entries_for example_env (previous_day_datetime example_env) ''ann@example.org''
     (filter receive_email (search_subscriptions example_env)) = example_digest"
  by (simp add: entries_for_def entry_of_def found_for_def pairs_of_def example_env_def
      previous_day_datetime_def timedelta_days_def new_articles_found_def search_call_for_def
      ann_def bob_def cat_new_def cat_old_def dog_new_def bird_old_def example_digest_def)

theorem order_preserved_witness:
  "run_raised (send_subscription_emails example_env) = None
   \<and> entries_for example_env (previous_day_datetime example_env) ''ann@example.org''
        (filter receive_email (search_subscriptions example_env))
       = [(''cats'', [(''Cats at home'', ''https://news.example/cats-home'')]),
          (''dogs'', [(''Dogs in town'', ''https://news.example/dogs-town'')])]
   \<and> (\<exists>m\<in>set (run_dispatched (send_subscription_emails example_env)).
         mail_to m = ''ann@example.org''
         \<and> mail_subject m
             = ''New articles for '' @ [SQ] @ ''cats'' @ [SQ] @ '','' @ [SQ] @ ''dogs'' @ [SQ]
         \<and> mail_body m
             = notice ''searches'' @ '' ''
                 @ keyword_block ''cats'' [(''Cats at home'', ''https://news.example/cats-home'')]
                 @ keyword_block ''dogs'' [(''Dogs in town'', ''https://news.example/dogs-town'')]
                 @ signature)"
proof -
  have fin: "run_raised (send_subscription_emails example_env) = None"
    by (simp add: example_run)
  have en: "entries_for example_env (previous_day_datetime example_env) ''ann@example.org''
        (filter receive_email (search_subscriptions example_env))
       = [(''cats'', [(''Cats at home'', ''https://news.example/cats-home'')]),
          (''dogs'', [(''Dogs in town'', ''https://news.example/dogs-town'')])]"
    by (simp add: example_entries example_digest_def)
  show ?thesis
    using order_preserved
      [of "''ann@example.org''" example_digest "''cats''" "[cat_new]" example_env
          "''ann@example.org''" "[(''Cats at home'', ''https://news.example/cats-home'')]"
          "[(''Dogs in town'', ''https://news.example/dogs-town'')]"]
      fin en
    by blast
qed

text \<open>
  Claim C9. The dictionary is keyed by the address, not by the user: when two
  subscriptions of two user records with different ids and the same address both
  qualify, in a run that no exception ends, there is one digest under that address
  holding both keywords and exactly one mail to the address, rendered from it; and the
  entry of the later subscription is the one stored under its keyword, an earlier entry
  under the same keyword being overwritten, unless a still later subscription writes
  under that address and keyword again.
\<close>

theorem digest_keyed_by_email:
  assumes "run_raised (send_subscription_emails e) = None"
    and "filter receive_email (search_subscriptions e) = pre @ s1 # mid @ s2 # post"
    and "find_by_id e (user_id s1) = Inr u1" and "find_by_id e (user_id s2) = Inr u2"
    and "id' u1 \<noteq> id' u2" and "email u1 = email u2"
    and "entry_of e (previous_day_datetime e) s1 = Some (email u1, kw1, ps1)"
    and "entry_of e (previous_day_datetime e) s2 = Some (email u2, kw2, ps2)"
  shows "\<exists>d. (email u1, d) \<in> set (run_digests (send_subscription_emails e))
           \<and> filter (\<lambda>m. mail_to m = email u1) (run_dispatched (send_subscription_emails e))
               = [compose_mail (email u1) d]
           \<and> kw1 \<in> fst ` set d \<and> kw2 \<in> fst ` set d
           \<and> ((\<forall>s'\<in>set post. \<forall>ps'.
                  entry_of e (previous_day_datetime e) s' \<noteq> Some (email u1, kw2, ps'))
                \<longrightarrow> map_of d kw2 = Some ps2)"
proof -
  let ?r = "send_subscription_emails e"
  let ?prev = "previous_day_datetime e"
  let ?ss = "filter receive_email (search_subscriptions e)"
  let ?em = "email u1"
  have us: "run_digests ?r = foldl (contribute e ?prev) [] ?ss"
    by (rule run_processed_all [OF assms(1)])
  have wf: "wf_digests (run_digests ?r)" by (rule run_wf)
  have e2: "entry_of e ?prev s2 = Some (?em, kw2, ps2)" using assms(6,8) by simp
  have m1: "s1 \<in> set ?ss" and m2: "s2 \<in> set ?ss" using assms(2) by simp_all
  from entry_has_digest [OF m1 assms(7)] obtain d where
    d: "(?em, d) \<in> set (run_digests ?r)" "kw1 \<in> fst ` set d" by (auto simp only: us)
  from entry_has_digest [OF m2 e2] obtain d' where
    d': "(?em, d') \<in> set (run_digests ?r)" "kw2 \<in> fst ` set d'" by (auto simp only: us)
  have "map_of (run_digests ?r) ?em = Some d" "map_of (run_digests ?r) ?em = Some d'"
    using wf_in_iff [OF wf] d(1) d'(1) by simp_all
  then have same: "d' = d" by simp
  have dist: "distinct (map fst (run_digests ?r))" using wf by (simp add: wf_digests_def)
  have "filter (\<lambda>m. mail_to m = ?em) (run_dispatched ?r)
          = map (\<lambda>(em, d). compose_mail em d) (filter (\<lambda>p. fst p = ?em) (run_digests ?r))"
    by (simp add: run_completed(2) [OF assms(1)] filter_map comp_def case_prod_beta
        mail_to_compose)
  then have one: "filter (\<lambda>m. mail_to m = ?em) (run_dispatched ?r) = [compose_mail ?em d]"
    by (simp add: filter_key_single [OF dist d(1)])
  have last: "map_of d kw2 = Some ps2"
    if "\<forall>s'\<in>set post. \<forall>ps'. entry_of e ?prev s' \<noteq> Some (?em, kw2, ps')"
  proof -
    have "?ss = (pre @ s1 # mid) @ s2 # post" using assms(2) by simp
    then have "lookup (run_digests ?r) ?em kw2 = Some ps2"
      using lookup_last [OF e2 that, of "[]" "pre @ s1 # mid"] by (simp only: us)
    moreover have "map_of (run_digests ?r) ?em = Some d"
      using wf_in_iff [OF wf] d(1) by simp
    ultimately show ?thesis by (simp add: lookup_def)
  qed
  show ?thesis using d d'(2) same one last by blast
qed

lemma shared_run:
  "send_subscription_emails shared_env =
     \<lparr>run_digests =
        [(''family@example.org'',
          [(''cats'', [(''Dogs in town'', ''https://news.example/dogs-town'')])])],
      run_queries = [search_call_for carl carl_cats, search_call_for cora cora_cats],
      run_dispatched =
        [compose_mail ''family@example.org''
           [(''cats'', [(''Dogs in town'', ''https://news.example/dogs-town'')])]],
      run_raised = None\<rparr>"
  by (simp add: send_subscription_emails_def shared_env_def process_subscription_def
      previous_day_datetime_def timedelta_days_def new_articles_found_def search_call_for_def
      carl_def cora_def carl_cats_def cora_cats_def cat_new_def dog_new_def Let_def
      send_mail_new_articles_search_def)

theorem digest_keyed_by_email_witness:
  "run_raised (send_subscription_emails shared_env) = None
   \<and> filter receive_email (search_subscriptions shared_env) = [] @ carl_cats # [] @ cora_cats # []
   \<and> find_by_id shared_env (user_id carl_cats) = Inr carl
   \<and> find_by_id shared_env (user_id cora_cats) = Inr cora
   \<and> id' carl \<noteq> id' cora \<and> email carl = email cora
   \<and> entry_of shared_env (previous_day_datetime shared_env) carl_cats
       = Some (email carl, ''cats'', [(''Cats at home'', ''https://news.example/cats-home'')])
   \<and> entry_of shared_env (previous_day_datetime shared_env) cora_cats
       = Some (email cora, ''cats'', [(''Dogs in town'', ''https://news.example/dogs-town'')])
   \<and> (\<exists>d. filter (\<lambda>m. mail_to m = email carl)
               (run_dispatched (send_subscription_emails shared_env))
             = [compose_mail (email carl) d]
          \<and> map_of d ''cats''
             = Some [(''Dogs in town'', ''https://news.example/dogs-town'')])"
proof -
  have a: "run_raised (send_subscription_emails shared_env) = None"
    by (simp add: shared_run)
  have b: "filter receive_email (search_subscriptions shared_env)
             = [] @ carl_cats # [] @ cora_cats # []"
    by (simp add: shared_env_def carl_cats_def cora_cats_def)
  have c: "find_by_id shared_env (user_id carl_cats) = Inr carl"
    by (simp add: shared_env_def carl_cats_def)
  have d: "find_by_id shared_env (user_id cora_cats) = Inr cora"
    by (simp add: shared_env_def cora_cats_def)
  have f: "id' carl \<noteq> id' cora" by (simp add: carl_def cora_def)
  have g: "email carl = email cora" by (simp add: carl_def cora_def)
  have h: "entry_of shared_env (previous_day_datetime shared_env) carl_cats
       = Some (email carl, ''cats'', [(''Cats at home'', ''https://news.example/cats-home'')])"
    by (simp add: entry_of_def found_for_def pairs_of_def shared_env_def
        previous_day_datetime_def timedelta_days_def new_articles_found_def search_call_for_def
        carl_def carl_cats_def cat_new_def)
  have i: "entry_of shared_env (previous_day_datetime shared_env) cora_cats
       = Some (email cora, ''cats'', [(''Dogs in town'', ''https://news.example/dogs-town'')])"
    by (simp add: entry_of_def found_for_def pairs_of_def shared_env_def
        previous_day_datetime_def timedelta_days_def new_articles_found_def search_call_for_def
        cora_def cora_cats_def dog_new_def)
  from digest_keyed_by_email [OF a b c d f g h i]
  have "\<exists>d. filter (\<lambda>m. mail_to m = email carl)
               (run_dispatched (send_subscription_emails shared_env))
             = [compose_mail (email carl) d]
          \<and> map_of d ''cats''
             = Some [(''Dogs in town'', ''https://news.example/dogs-town'')]"
    by auto
  then show ?thesis using a b c d f g h i by blast
qed


end
